theory Spec2Isabelle
  imports Complex_Main "HOL-Library.Word" "HOL-Library.Stream"
begin

section \<open>Data model\<close>

text \<open>
  A JavaScript string is a sequence of UTF-16 code units: \<open>s.length\<close> counts code units
  and \<open>s[i]\<close> reads one. The entropy source \<open>crypto.getRandomValues\<close> on a
  \<open>Uint32Array(1)\<close> is an infinite sequence of 32-bit draws; every function that draws
  takes the sequence and returns what is left of it.

  A result is \<open>None\<close> when the call does not return, \<open>Some (Inl e)\<close> when it throws
  \<open>e\<close>, and \<open>Some (Inr r)\<close> when it returns \<open>r\<close>.
\<close>

type_synonym js_string = "16 word list"

type_synonym entropy = "32 word stream"

datatype error = Error string

type_synonym 'a result = "(error + 'a) option"

definition js :: "string \<Rightarrow> js_string" where
  "js cs = map (\<lambda>c. of_nat (of_char c)) cs"

section \<open>Unbiased random integer generator\<close>

text \<open>
  \<open>const maxValid = Math.floor(2**32 / max) * max\<close>. The argument is a number holding an
  integer. For an integer \<open>max > 0\<close> the double quotient \<open>2**32 / max\<close> is rounded by less
  than its distance to the next integer above it, so its \<open>Math.floor\<close> is the integer
  quotient; the product is below \<open>2^53\<close> and exact.
\<close>

definition maxValid :: "int \<Rightarrow> int" where
  "maxValid mx = (2 ^ 32 div mx) * mx"

text \<open>
  \<open>do { crypto.getRandomValues(arr); value = arr[0]; } while (value >= maxValid);\<close>
  The loop has no bound in the source, so it is a partial function: \<open>None\<close> is the run
  that rejects every draw.
\<close>

partial_function (option) draw_loop :: "int \<Rightarrow> entropy \<Rightarrow> (32 word \<times> entropy) option" where
  "draw_loop mv s =
     (let v = shd s; s' = stl s
      in if uint v \<ge> mv then draw_loop mv s' else Some (v, s'))"

definition secureRandom :: "int \<Rightarrow> entropy \<Rightarrow> (int \<times> entropy) result" where
  "secureRandom mx s =
     (if mx \<le> 0 then Some (Inl (Error ''secureRandom: max must be positive''))
      else if mx = 1 then Some (Inr (0, s))
      else (case draw_loop (maxValid mx) s of
              None \<Rightarrow> None
            | Some (v, s') \<Rightarrow> Some (Inr (uint v mod mx, s'))))"

text \<open>A draw ends the loop when the loop condition \<open>value >= maxValid\<close> is false.\<close>

definition accepted :: "int \<Rightarrow> 32 word \<Rightarrow> bool" where
  "accepted mx v = (\<not> uint v \<ge> maxValid mx)"

text \<open>The source never runs dry of accepted draws: after every position there is one.\<close>

definition replenishing :: "int \<Rightarrow> entropy \<Rightarrow> bool" where
  "replenishing mx s = (\<forall>n. \<exists>k. accepted mx (sdrop n s !! k))"

section \<open>Strength scorer\<close>

text \<open>
  The regular expressions of \<open>calculateStrength\<close> have no \<open>u\<close> flag, so they test single
  code units: \<open>/[a-z]/\<close>, \<open>/[A-Z]/\<close>, \<open>/[0-9]/\<close> and the negated class
  \<open>/[^a-zA-Z0-9]/\<close>.
\<close>

definition isLower :: "16 word \<Rightarrow> bool" where
  "isLower c = (0x61 \<le> c \<and> c \<le> 0x7A)"

definition isUpper :: "16 word \<Rightarrow> bool" where
  "isUpper c = (0x41 \<le> c \<and> c \<le> 0x5A)"

definition isDigit :: "16 word \<Rightarrow> bool" where
  "isDigit c = (0x30 \<le> c \<and> c \<le> 0x39)"

definition isSymbol :: "16 word \<Rightarrow> bool" where
  "isSymbol c = (\<not> (isLower c \<or> isUpper c \<or> isDigit c))"

definition isLeadSurrogate :: "16 word \<Rightarrow> bool" where
  "isLeadSurrogate c = (0xD800 \<le> c \<and> c \<le> 0xDBFF)"

definition isTrailSurrogate :: "16 word \<Rightarrow> bool" where
  "isTrailSurrogate c = (0xDC00 \<le> c \<and> c \<le> 0xDFFF)"

text \<open>
  \<open>new Set(password)\<close> fills the set from the string's iterator, which yields code points:
  a lead surrogate followed by a trail surrogate is one element, every other code unit is
  an element of its own. Each element is a string of one or two code units.
\<close>

fun codePoints :: "js_string \<Rightarrow> js_string list" where
  "codePoints (c # d # cs) =
     (if isLeadSurrogate c \<and> isTrailSurrogate d then [c, d] # codePoints cs
      else [c] # codePoints (d # cs))"
| "codePoints [c] = [[c]]"
| "codePoints [] = []"

definition calculateStrength :: "js_string \<Rightarrow> int" where
  "calculateStrength password =
     (if password = [] then 0
      else
        let score = 0 + min (int (length password) * 4) 40;
            hasLower = list_ex isLower password;
            hasUpper = list_ex isUpper password;
            hasNumbers = list_ex isDigit password;
            hasSymbols = list_ex isSymbol password;
            varietyCount = int (length (filter id [hasLower, hasUpper, hasNumbers, hasSymbols]));
            score = score + varietyCount * 15;
            uniqueChars = int (length (remdups (codePoints password)));
            repetitionPenalty = (int (length password) - uniqueChars) * 2;
            score = max 0 (score - repetitionPenalty)
        in min score 100)"

text \<open>
  The reference of the specification, in its own words: the base \<open>min(length * 4, 40)\<close>,
  15 points for each class present, and the penalty \<open>(length - distinct_character_count) * 2\<close>,
  floored at 0 and capped at 100, with one notion of character (the code unit) for the
  length and for the distinct count.
\<close>

definition calculateStrength_spec :: "js_string \<Rightarrow> int" where
  "calculateStrength_spec p =
     (if p = [] then 0
      else min 100 (max 0
        (min (int (length p) * 4) 40
         + 15 * (of_bool (list_ex isLower p) + of_bool (list_ex isUpper p)
                 + of_bool (list_ex isDigit p) + of_bool (list_ex isSymbol p))
         - 2 * (int (length p) - int (card (set p))))))"

text \<open>
  The four labels of \<open>getStrengthDescription\<close> are Russian string literals in the source:
  "weak password", "medium password", "reliable password", "very reliable password". They
  are written here by their code units.
\<close>

definition label_weak :: js_string where
  "label_weak = [0x0421, 0x043B, 0x0430, 0x0431, 0x044B, 0x0439, 0x0020,
                 0x043F, 0x0430, 0x0440, 0x043E, 0x043B, 0x044C]"

definition label_medium :: js_string where
  "label_medium = [0x0421, 0x0440, 0x0435, 0x0434, 0x043D, 0x0438, 0x0439, 0x0020,
                   0x043F, 0x0430, 0x0440, 0x043E, 0x043B, 0x044C]"

definition label_strong :: js_string where
  "label_strong = [0x041D, 0x0430, 0x0434, 0x0451, 0x0436, 0x043D, 0x044B, 0x0439, 0x0020,
                   0x043F, 0x0430, 0x0440, 0x043E, 0x043B, 0x044C]"

definition label_very_strong :: js_string where
  "label_very_strong = [0x041E, 0x0447, 0x0435, 0x043D, 0x044C, 0x0020,
                        0x043D, 0x0430, 0x0434, 0x0451, 0x0436, 0x043D, 0x044B, 0x0439, 0x0020,
                        0x043F, 0x0430, 0x0440, 0x043E, 0x043B, 0x044C]"

definition getStrengthDescription :: "int \<Rightarrow> js_string" where
  "getStrengthDescription score =
     (if score < 40 then label_weak
      else if score < 70 then label_medium
      else if score < 90 then label_strong
      else label_very_strong)"

section \<open>Arguments read with parseInt\<close>

text \<open>
  \<open>parseInt(x, 10)\<close> turns its argument into a string, skips leading white space, reads an
  optional sign and then the longest run of decimal digits; with no digit the result is
  \<open>NaN\<close>, here \<open>None\<close>. An argument is \<open>undefined\<close>, a string, or a number holding an integer;
  such a number of magnitude below \<open>10^21\<close> prints as its decimal numeral, and the model
  covers those numbers.
\<close>

datatype js_value = JSUndefined | JSNumber int | JSString js_string

definition isWhiteSpace :: "16 word \<Rightarrow> bool" where
  "isWhiteSpace c =
     (c \<in> set [0x0009, 0x000A, 0x000B, 0x000C, 0x000D, 0x0020, 0x00A0, 0x1680,
                0x2028, 0x2029, 0x202F, 0x205F, 0x3000, 0xFEFF]
      \<or> (0x2000 \<le> c \<and> c \<le> 0x200A))"

fun digits10 :: "nat \<Rightarrow> js_string" where
  "digits10 n =
     (if n < 10 then [0x30 + of_nat n]
      else digits10 (n div 10) @ [0x30 + of_nat (n mod 10)])"

declare digits10.simps [simp del]

definition ToString :: "js_value \<Rightarrow> js_string" where
  "ToString x =
     (case x of
        JSUndefined \<Rightarrow> js ''undefined''
      | JSNumber n \<Rightarrow> (if n < 0 then 0x2D # digits10 (nat (- n)) else digits10 (nat n))
      | JSString s \<Rightarrow> s)"

definition digitValue :: "16 word \<Rightarrow> nat" where
  "digitValue c = unat c - 48"

definition parseInt10 :: "js_value \<Rightarrow> int option" where
  "parseInt10 x =
     (let s = dropWhile isWhiteSpace (ToString x);
          sign = (if s \<noteq> [] \<and> hd s = 0x2D then - 1 else 1);
          s = (if s \<noteq> [] \<and> (hd s = 0x2B \<or> hd s = 0x2D) then tl s else s);
          z = takeWhile isDigit s
      in if z = [] then None
         else Some (sign * int (foldl (\<lambda>a c. 10 * a + digitValue c) 0 z)))"

text \<open>\<open>x || d\<close> on a number: \<open>NaN\<close> and 0 are falsy and give the default.\<close>

definition or_default :: "int option \<Rightarrow> int \<Rightarrow> int" where
  "or_default x d = (case x of None \<Rightarrow> d | Some n \<Rightarrow> if n = 0 then d else n)"

section \<open>Secret synthesizer\<close>

definition SETS_lower :: js_string where
  "SETS_lower = js ''abcdefghijklmnopqrstuvwxyz''"

definition SETS_upper :: js_string where
  "SETS_upper = js ''ABCDEFGHIJKLMNOPQRSTUVWXYZ''"

definition SETS_numbers :: js_string where
  "SETS_numbers = js ''0123456789''"

definition SETS_symbols :: js_string where
  "SETS_symbols = js ''!@#$%^&*()_+-=[]{}|;:,.<>?''"

record options =
  lower :: bool
  upper :: bool
  numbers :: bool
  symbols :: bool

text \<open>The pool of \<open>generatePassword\<close>: \<open>pool += SETS.x\<close> for each flag that is set.\<close>

definition build_pool :: "options \<Rightarrow> js_string" where
  "build_pool opts =
     (if lower opts then SETS_lower else []) @
     (if upper opts then SETS_upper else []) @
     (if numbers opts then SETS_numbers else []) @
     (if symbols opts then SETS_symbols else [])"

text \<open>
  \<open>password += pool[i]\<close>: a read out of range is \<open>undefined\<close>, and the concatenation then
  appends the text "undefined".
\<close>

definition char_at :: "js_string \<Rightarrow> int \<Rightarrow> js_string" where
  "char_at pool i = (if 0 \<le> i \<and> i < int (length pool) then [pool ! nat i] else js ''undefined'')"

text \<open>
  \<open>for (let i = 0; i < len; i++) password += pool[secureRandom(pool.length)]\<close>, by the
  number of rounds left. An exception of \<open>secureRandom\<close> leaves the loop.
\<close>

fun password_loop :: "nat \<Rightarrow> js_string \<Rightarrow> js_string \<Rightarrow> entropy \<Rightarrow> (js_string \<times> entropy) result" where
  "password_loop 0 pool password s = Some (Inr (password, s))"
| "password_loop (Suc n) pool password s =
     (case secureRandom (int (length pool)) s of
        None \<Rightarrow> None
      | Some (Inl e) \<Rightarrow> Some (Inl e)
      | Some (Inr (i, s')) \<Rightarrow> password_loop n pool (password @ char_at pool i) s')"

text \<open>\<open>const len = Math.max(6, Math.min(64, parseInt(length, 10) || 16))\<close>\<close>

definition password_len :: "js_value \<Rightarrow> int" where
  "password_len len_arg = max 6 (min 64 (or_default (parseInt10 len_arg) 16))"

definition generatePassword :: "js_value \<Rightarrow> options \<Rightarrow> entropy \<Rightarrow> (js_string \<times> entropy) result" where
  "generatePassword len_arg opts s =
     (let pool = build_pool opts
      in if pool = [] then Some (Inl (Error ''At least one character set must be selected''))
         else let len = password_len len_arg
              in password_loop (nat len) pool [] s)"

text \<open>
  \<open>BIP39_WORDS[i]\<close> is \<open>undefined\<close> out of range, and \<open>words.join(sep)\<close> writes an
  \<open>undefined\<close> element as the empty string.
\<close>

definition word_at :: "js_string list \<Rightarrow> int \<Rightarrow> js_string option" where
  "word_at ws i = (if 0 \<le> i \<and> i < int (length ws) then Some (ws ! nat i) else None)"

fun join :: "js_string \<Rightarrow> js_string option list \<Rightarrow> js_string" where
  "join sep [] = []"
| "join sep [w] = (case w of None \<Rightarrow> [] | Some x \<Rightarrow> x)"
| "join sep (w # ws) = (case w of None \<Rightarrow> [] | Some x \<Rightarrow> x) @ sep @ join sep ws"

fun words_loop :: "nat \<Rightarrow> js_string list \<Rightarrow> js_string option list \<Rightarrow> entropy \<Rightarrow>
    (js_string option list \<times> entropy) result" where
  "words_loop 0 ws words s = Some (Inr (words, s))"
| "words_loop (Suc n) ws words s =
     (case secureRandom (int (length ws)) s of
        None \<Rightarrow> None
      | Some (Inl e) \<Rightarrow> Some (Inl e)
      | Some (Inr (i, s')) \<Rightarrow> words_loop n ws (words @ [word_at ws i]) s')"

text \<open>\<open>const count = Math.max(3, Math.min(12, parseInt(wordCount, 10) || 6))\<close>\<close>

definition phrase_count :: "js_value \<Rightarrow> int" where
  "phrase_count wordCount = max 3 (min 12 (or_default (parseInt10 wordCount) 6))"

text \<open>\<open>const sep = (separator || '-').slice(0, 10)\<close>: the empty string is falsy.\<close>

definition phrase_sep :: "js_string \<Rightarrow> js_string" where
  "phrase_sep separator = take 10 (if separator = [] then js ''-'' else separator)"

text \<open>
  The word list \<open>BIP39_WORDS\<close> is a global defined by another script. It is a parameter
  here, \<open>None\<close> when the global is undefined or falsy.
\<close>

definition generatePassphrase ::
    "js_string list option \<Rightarrow> js_value \<Rightarrow> js_string \<Rightarrow> entropy \<Rightarrow> (js_string \<times> entropy) result" where
  "generatePassphrase BIP39_WORDS wordCount separator s =
     (case BIP39_WORDS of
        None \<Rightarrow> Some (Inl (Error ''BIP39 word list not loaded''))
      | Some ws \<Rightarrow>
          if length ws = 0 then Some (Inl (Error ''BIP39 word list not loaded''))
          else
            let count = phrase_count wordCount;
                sep = phrase_sep separator
            in (case words_loop (nat count) ws [] s of
                  None \<Rightarrow> None
                | Some (Inl e) \<Rightarrow> Some (Inl e)
                | Some (Inr (words, s')) \<Rightarrow> Some (Inr (join sep words, s'))))"

section \<open>Passphrase entropy\<close>

text \<open>
  A JavaScript number as far as \<open>calculateEntropy\<close> needs it: a real, an infinity or
  \<open>NaN\<close>. Finite arithmetic is that of the reals; the rounding of doubles is left out.
\<close>

datatype js_number = Finite real | PosInfinity | NegInfinity | NaN

definition Math_log2 :: "nat \<Rightarrow> js_number" where
  "Math_log2 n = (if n = 0 then NegInfinity else Finite (log 2 (real n)))"

text \<open>The product of a number with an integer.\<close>

definition times_int :: "js_number \<Rightarrow> int \<Rightarrow> js_number" where
  "times_int x k =
     (case x of
        Finite r \<Rightarrow> Finite (r * real_of_int k)
      | PosInfinity \<Rightarrow> (if k > 0 then PosInfinity else if k < 0 then NegInfinity else NaN)
      | NegInfinity \<Rightarrow> (if k > 0 then NegInfinity else if k < 0 then PosInfinity else NaN)
      | NaN \<Rightarrow> NaN)"

definition calculateEntropy :: "js_string list option \<Rightarrow> int \<Rightarrow> js_number" where
  "calculateEntropy BIP39_WORDS wordCount =
     (case BIP39_WORDS of
        None \<Rightarrow> Finite 0
      | Some ws \<Rightarrow> (let wordListSize = length ws in times_int (Math_log2 wordListSize) wordCount))"

section \<open>Properties of the generator\<close>

lemma draw_loop_first:
  "\<not> uint (s !! k) \<ge> mv \<Longrightarrow> (\<forall>j<k. uint (s !! j) \<ge> mv) \<Longrightarrow>
   draw_loop mv s = Some (s !! k, sdrop (Suc k) s)"
proof (induction k arbitrary: s)
  case 0
  then show ?case by (subst draw_loop.simps) simp
next
  case (Suc k)
  have hd_rej: "uint (shd s) \<ge> mv" using Suc.prems(2) [rule_format, of 0] by simp
  have "draw_loop mv (stl s) = Some (stl s !! k, sdrop (Suc k) (stl s))"
  proof (rule Suc.IH)
    show "\<not> uint (stl s !! k) \<ge> mv" using Suc.prems(1) by simp
    show "\<forall>j<k. uint (stl s !! j) \<ge> mv"
    proof (intro allI impI)
      fix j assume "j < k"
      then have "Suc j < Suc k" by simp
      with Suc.prems(2) have "uint (s !! Suc j) \<ge> mv" by blast
      then show "uint (stl s !! j) \<ge> mv" by simp
    qed
  qed
  with hd_rej show ?case by (subst draw_loop.simps) simp
qed

lemma draw_loop_returns:
  assumes "\<not> uint (s !! k) \<ge> mv"
  shows "\<exists>i\<le>k. \<not> uint (s !! i) \<ge> mv \<and> draw_loop mv s = Some (s !! i, sdrop (Suc i) s)"
proof -
  define i where "i = (LEAST i. \<not> uint (s !! i) \<ge> mv)"
  have acc: "\<not> uint (s !! i) \<ge> mv" unfolding i_def using assms by (rule LeastI)
  have le: "i \<le> k" unfolding i_def using assms by (rule Least_le)
  have "\<forall>j<i. uint (s !! j) \<ge> mv"
  proof (intro allI impI)
    fix j assume "j < i"
    then show "uint (s !! j) \<ge> mv" unfolding i_def using not_less_Least by blast
  qed
  with acc have "draw_loop mv s = Some (s !! i, sdrop (Suc i) s)" by (rule draw_loop_first)
  with acc le show ?thesis by blast
qed

lemma draw_loop_Some_aux:
  "draw_loop mv s = Some y \<Longrightarrow>
   \<exists>i. fst y = s !! i \<and> \<not> uint (fst y) \<ge> mv \<and> snd y = sdrop (Suc i) s"
proof (induct mv s y rule: draw_loop.raw_induct [rotated 1, consumes 1])
  case (1 f mv s y)
  show ?case
  proof (cases "uint (shd s) \<ge> mv")
    case True
    with 1(2) have fy: "f mv (stl s) = Some y" by (simp add: Let_def)
    have "\<exists>i. fst y = stl s !! i \<and> \<not> uint (fst y) \<ge> mv \<and> snd y = sdrop (Suc i) (stl s)"
      using fy by (rule 1(1))
    then obtain i where
      "fst y = stl s !! i" "\<not> uint (fst y) \<ge> mv" "snd y = sdrop (Suc i) (stl s)"
      by blast
    then have "fst y = s !! Suc i \<and> \<not> uint (fst y) \<ge> mv \<and> snd y = sdrop (Suc (Suc i)) s"
      by simp
    then show ?thesis by blast
  next
    case False
    with 1(2) have "fst y = s !! 0 \<and> \<not> uint (fst y) \<ge> mv \<and> snd y = sdrop (Suc 0) s"
      by (auto simp: Let_def)
    then show ?thesis by blast
  qed
qed

lemma draw_loop_Some:
  "draw_loop mv s = Some (v, s') \<Longrightarrow>
   \<exists>i. v = s !! i \<and> \<not> uint v \<ge> mv \<and> s' = sdrop (Suc i) s"
  using draw_loop_Some_aux [of mv s "(v, s')"] by simp

lemma draw_loop_None:
  "(\<forall>k. uint (s !! k) \<ge> mv) \<Longrightarrow> draw_loop mv s = None"
proof (rule ccontr)
  assume all: "\<forall>k. uint (s !! k) \<ge> mv" and "draw_loop mv s \<noteq> None"
  then obtain v s' where "draw_loop mv s = Some (v, s')" by auto
  from draw_loop_Some [OF this] all show False by blast
qed

lemma residue_class_card:
  fixes mx y q :: int
  assumes "0 < mx" "0 \<le> y" "y < mx" "0 \<le> q"
  shows "card {x. 0 \<le> x \<and> x < q * mx \<and> x mod mx = y} = nat q"
proof -
  have eq: "{x. 0 \<le> x \<and> x < q * mx \<and> x mod mx = y} = (\<lambda>k. k * mx + y) ` {0..<q}"
  proof (intro set_eqI iffI)
    fix x assume "x \<in> {x. 0 \<le> x \<and> x < q * mx \<and> x mod mx = y}"
    then have x: "0 \<le> x" "x < q * mx" "x mod mx = y" by auto
    have "x = (x div mx) * mx + y" using x(3) by (metis div_mult_mod_eq)
    moreover have "0 \<le> x div mx" using x(1) assms(1) by (simp add: pos_imp_zdiv_nonneg_iff)
    moreover have "x div mx < q"
    proof -
      have "(x div mx) * mx + x mod mx = x" by simp
      moreover have "0 \<le> x mod mx" using assms(1) by simp
      ultimately have "(x div mx) * mx < q * mx" using x(2) by linarith
      then show ?thesis by (rule mult_right_less_imp_less) (use assms(1) in simp)
    qed
    ultimately show "x \<in> (\<lambda>k. k * mx + y) ` {0..<q}"
      by (intro image_eqI [where x = "x div mx"]) simp_all
  next
    fix x assume "x \<in> (\<lambda>k. k * mx + y) ` {0..<q}"
    then obtain k where k: "0 \<le> k" "k < q" "x = k * mx + y" by auto
    have "0 \<le> k * mx" using k(1) assms(1) by simp
    then have "0 \<le> x" using k(3) assms(2) by simp
    moreover have "x < q * mx"
    proof -
      have "k + 1 \<le> q" using k(2) by simp
      then have "(k + 1) * mx \<le> q * mx" using assms(1) by (simp add: mult_right_mono)
      moreover have "x < (k + 1) * mx" using k(3) assms(3) by (simp add: algebra_simps)
      ultimately show ?thesis by linarith
    qed
    moreover have "x mod mx = y" using k(3) assms by simp
    ultimately show "x \<in> {x. 0 \<le> x \<and> x < q * mx \<and> x mod mx = y}" by simp
  qed
  have "inj_on (\<lambda>k. k * mx + y) {0..<q}" using assms(1) by (auto simp: inj_on_def)
  then have "card ((\<lambda>k. k * mx + y) ` {0..<q}) = card {0..<q}" by (rule card_image)
  then show ?thesis by (simp add: eq)
qed

lemma maxValid_le:
  assumes "0 < mx"
  shows "maxValid mx \<le> 2 ^ 32"
proof -
  have "(2 ^ 32 div mx) * mx + 2 ^ 32 mod mx = (2 ^ 32 :: int)" by simp
  moreover have "0 \<le> (2 ^ 32 :: int) mod mx" using assms by simp
  ultimately show ?thesis unfolding maxValid_def by linarith
qed

lemma accepted_preimages:
  assumes "0 < mx" "0 \<le> y" "y < mx"
  shows "card {v :: 32 word. accepted mx v \<and> uint v mod mx = y} = nat (2 ^ 32 div mx)"
proof -
  let ?A = "{v :: 32 word. accepted mx v \<and> uint v mod mx = y}"
  let ?B = "{x. 0 \<le> x \<and> x < (2 ^ 32 div mx) * mx \<and> x mod mx = y}"
  have "uint ` ?A = ?B"
  proof (intro set_eqI iffI)
    fix x assume "x \<in> uint ` ?A"
    then show "x \<in> ?B" by (auto simp: accepted_def maxValid_def)
  next
    fix x assume "x \<in> ?B"
    then have x: "0 \<le> x" "x < maxValid mx" "x mod mx = y" by (auto simp: maxValid_def)
    define w :: "32 word" where "w = word_of_int x"
    have "x < 2 ^ 32" using x(2) maxValid_le [OF assms(1)] by linarith
    then have uw: "uint w = x" using x(1) by (simp add: w_def uint_word_of_int)
    have "w \<in> ?A" using x uw by (simp add: accepted_def)
    with uw [symmetric] show "x \<in> uint ` ?A" by (rule image_eqI)
  qed
  moreover have "card (uint ` ?A) = card ?A"
    by (rule card_image) (auto simp: inj_on_def intro: word_uint_eqI)
  moreover have "0 \<le> (2 ^ 32 :: int) div mx" using assms(1) by (simp add: pos_imp_zdiv_nonneg_iff)
  ultimately show ?thesis using residue_class_card [OF assms, of "2 ^ 32 div mx"] by simp
qed

lemma secureRandom_no_throw: "0 < mx \<Longrightarrow> secureRandom mx s \<noteq> Some (Inl e)"
  by (simp add: secureRandom_def split: option.splits prod.splits)

lemma secureRandom_accepted_returns:
  assumes "1 < mx" "accepted mx (s !! k)"
  shows "\<exists>i\<le>k. accepted mx (s !! i) \<and>
           secureRandom mx s = Some (Inr (uint (s !! i) mod mx, sdrop (Suc i) s))"
proof -
  from assms(2) have "\<not> uint (s !! k) \<ge> maxValid mx" by (simp add: accepted_def)
  from draw_loop_returns [OF this] obtain i where
    i: "i \<le> k" "\<not> uint (s !! i) \<ge> maxValid mx"
       "draw_loop (maxValid mx) s = Some (s !! i, sdrop (Suc i) s)"
    by blast
  from i(3) assms(1)
  have "secureRandom mx s = Some (Inr (uint (s !! i) mod mx, sdrop (Suc i) s))"
    by (simp add: secureRandom_def)
  with i(1,2) show ?thesis unfolding accepted_def by blast
qed

lemma secureRandom_Inr:
  assumes "1 < mx" "secureRandom mx s = Some (Inr (v, s'))"
  shows "\<exists>i. accepted mx (s !! i) \<and> v = uint (s !! i) mod mx \<and> s' = sdrop (Suc i) s"
proof -
  from assms obtain w where w: "draw_loop (maxValid mx) s = Some (w, s')" "v = uint w mod mx"
    by (auto simp: secureRandom_def split: option.splits prod.splits)
  from draw_loop_Some [OF w(1)] w(2) show ?thesis unfolding accepted_def by blast
qed

lemma secureRandom_None_iff:
  assumes "1 < mx"
  shows "secureRandom mx s = None \<longleftrightarrow> (\<forall>k. \<not> accepted mx (s !! k))"
proof
  assume none: "secureRandom mx s = None"
  show "\<forall>k. \<not> accepted mx (s !! k)"
  proof (intro allI notI)
    fix k assume "accepted mx (s !! k)"
    from secureRandom_accepted_returns [OF assms this] none show False by auto
  qed
next
  assume "\<forall>k. \<not> accepted mx (s !! k)"
  then have "\<forall>k. uint (s !! k) \<ge> maxValid mx" by (simp add: accepted_def)
  then have "draw_loop (maxValid mx) s = None" by (rule draw_loop_None)
  with assms show "secureRandom mx s = None" by (simp add: secureRandom_def)
qed

lemma secureRandom_range:
  assumes "1 < mx" "secureRandom mx s = Some (Inr (v, s'))"
  shows "0 \<le> v \<and> v < mx"
proof -
  from secureRandom_Inr [OF assms] obtain i where "v = uint (s !! i) mod mx" by blast
  with assms(1) show ?thesis by simp
qed

lemma maxValid_above: "2 ^ 32 < mx \<Longrightarrow> maxValid mx = 0"
  by (simp add: maxValid_def)

lemma maxValid_pos:
  assumes "0 < mx" "mx \<le> 2 ^ 32"
  shows "0 < maxValid mx"
proof -
  have "0 < (2 ^ 32 :: int) div mx" using assms pos_imp_zdiv_pos_iff [of mx "2 ^ 32"] by simp
  then have "1 \<le> (2 ^ 32 :: int) div mx" by simp
  then have "1 * mx \<le> (2 ^ 32 div mx) * mx" using assms(1) by (intro mult_right_mono) simp_all
  with assms(1) show ?thesis by (simp add: maxValid_def)
qed

lemma secureRandom_SCons_accepted:
  assumes "1 < mx" "accepted mx v"
  shows "secureRandom mx (v ## s) = Some (Inr (uint v mod mx, s))"
  using assms by (simp add: secureRandom_def accepted_def draw_loop.simps [of _ "v ## s"])

lemma secureRandom_SCons_rejected:
  assumes "1 < mx" "\<not> accepted mx v"
  shows "secureRandom mx (v ## s) = secureRandom mx s"
  using assms by (simp add: secureRandom_def accepted_def draw_loop.simps [of _ "v ## s"])

lemma snth_sconst: "sconst x !! k = x"
  by (induction k) simp_all

lemma sconst_unfold: "sconst x = x ## sconst x"
  by (subst siterate.ctr) simp

lemma secureRandom_sconst:
  assumes "1 < mx" "accepted mx v"
  shows "secureRandom mx (sconst v) = Some (Inr (uint v mod mx, sconst v))"
  using secureRandom_SCons_accepted [OF assms, of "sconst v"] sconst_unfold [of v] by simp

text \<open>
  Claim C1. For every integer \<open>max\<close> with \<open>1 < max \<le> 2^32\<close> rejection sampling is unbiased.
  A draw accepted by the loop is returned at once, reduced modulo \<open>max\<close>; a rejected draw
  is discarded and the call goes on with the next one; the accepted draws are those below
  \<open>limit = floor(2^32 / max) * max\<close>; and every output \<open>y\<close> in \<open>[0, max)\<close> has exactly
  \<open>floor(2^32 / max)\<close> accepted 32-bit preimages, the same number for all \<open>y\<close>.
\<close>

theorem secureRandom_unbiased:
  assumes "1 < mx" "mx \<le> 2 ^ 32" "0 \<le> y" "y < mx"
  shows "(\<forall>v s. accepted mx v \<longrightarrow> secureRandom mx (v ## s) = Some (Inr (uint v mod mx, s)))
       \<and> (\<forall>v s. \<not> accepted mx v \<longrightarrow> secureRandom mx (v ## s) = secureRandom mx s)
       \<and> (\<forall>v. accepted mx v \<longleftrightarrow> uint v < (2 ^ 32 div mx) * mx)
       \<and> card {v :: 32 word. accepted mx v \<and> uint v mod mx = y} = nat (2 ^ 32 div mx)"
proof (intro conjI allI impI)
  fix v :: "32 word" and s
  assume "accepted mx v"
  with assms(1) show "secureRandom mx (v ## s) = Some (Inr (uint v mod mx, s))"
    by (rule secureRandom_SCons_accepted)
next
  fix v :: "32 word" and s
  assume "\<not> accepted mx v"
  with assms(1) show "secureRandom mx (v ## s) = secureRandom mx s"
    by (rule secureRandom_SCons_rejected)
next
  fix v :: "32 word"
  show "accepted mx v \<longleftrightarrow> uint v < (2 ^ 32 div mx) * mx"
    by (auto simp: accepted_def maxValid_def)
next
  from assms show "card {v :: 32 word. accepted mx v \<and> uint v mod mx = y} = nat (2 ^ 32 div mx)"
    by (intro accepted_preimages) simp_all
qed

theorem secureRandom_unbiased_witness:
  "secureRandom 3 (7 ## sconst 0) = Some (Inr (1, sconst 0))
   \<and> secureRandom 3 (4294967295 ## 5 ## sconst 0) = Some (Inr (2, sconst 0))
   \<and> accepted 3 4294967294 \<and> \<not> accepted 3 4294967295
   \<and> card {v :: 32 word. accepted 3 v \<and> uint v mod 3 = 1} = 1431655765"
proof -
  have a: "accepted 3 7" "accepted 3 5" "accepted 3 4294967294" "\<not> accepted 3 4294967295"
    by (simp_all add: accepted_def maxValid_def)
  have u: "uint (7 :: 32 word) mod 3 = 1" "uint (5 :: 32 word) mod 3 = 2" by simp_all
  have h: "(1::int) < 3" "(3::int) \<le> 2 ^ 32" "(0::int) \<le> 1" "(1::int) < 3" by simp_all
  note t = secureRandom_unbiased [OF h]
  from t a(1) have "secureRandom 3 (7 ## sconst 0) = Some (Inr (uint (7 :: 32 word) mod 3, sconst 0))"
    by blast
  moreover from t a(4) have "secureRandom 3 (4294967295 ## 5 ## sconst 0) = secureRandom 3 (5 ## sconst 0)"
    by blast
  moreover from t a(2) have "secureRandom 3 (5 ## sconst 0) = Some (Inr (uint (5 :: 32 word) mod 3, sconst 0))"
    by blast
  moreover from t have "card {v :: 32 word. accepted 3 v \<and> uint v mod 3 = 1} = nat (2 ^ 32 div 3)"
    by blast
  ultimately show ?thesis using a u by simp
qed

text \<open>
  Claim C2. \<open>secureRandom(max)\<close> throws its argument error exactly when \<open>max \<le> 0\<close>
  (the spec's InvalidArgument is the source's \<open>Error('secureRandom: max must be positive')\<close>);
  \<open>secureRandom(1)\<close> returns 0 and leaves the entropy source untouched; and for
  \<open>max > 1\<close> every returned value lies in \<open>[0, max)\<close>, whatever the draws are. A value is
  returned as soon as the source holds one accepted draw.
\<close>

theorem secureRandom_contract:
  "(mx \<le> 0 \<longrightarrow> secureRandom mx s = Some (Inl (Error ''secureRandom: max must be positive'')))
   \<and> (0 < mx \<longrightarrow> (\<forall>e. secureRandom mx s \<noteq> Some (Inl e)))
   \<and> secureRandom 1 s = Some (Inr (0, s))
   \<and> (1 < mx \<longrightarrow> (\<forall>v s'. secureRandom mx s = Some (Inr (v, s')) \<longrightarrow> 0 \<le> v \<and> v < mx))
   \<and> (1 < mx \<longrightarrow> (\<exists>k. accepted mx (s !! k)) \<longrightarrow>
          (\<exists>v s'. secureRandom mx s = Some (Inr (v, s')) \<and> 0 \<le> v \<and> v < mx))"
proof (intro conjI impI allI)
  assume "mx \<le> 0"
  then show "secureRandom mx s = Some (Inl (Error ''secureRandom: max must be positive''))"
    by (simp add: secureRandom_def)
next
  fix e assume "0 < mx"
  then show "secureRandom mx s \<noteq> Some (Inl e)" by (rule secureRandom_no_throw)
next
  show "secureRandom 1 s = Some (Inr (0, s))" by (simp add: secureRandom_def)
next
  fix v s' assume "1 < mx" "secureRandom mx s = Some (Inr (v, s'))"
  then have "0 \<le> v \<and> v < mx" by (rule secureRandom_range)
  then show "0 \<le> v" "v < mx" by simp_all
next
  assume mx: "1 < mx" and "\<exists>k. accepted mx (s !! k)"
  then obtain k where "accepted mx (s !! k)" by blast
  from secureRandom_accepted_returns [OF mx this] obtain i where
    r: "secureRandom mx s = Some (Inr (uint (s !! i) mod mx, sdrop (Suc i) s))" by blast
  from secureRandom_range [OF mx r] r
  show "\<exists>v s'. secureRandom mx s = Some (Inr (v, s')) \<and> 0 \<le> v \<and> v < mx" by blast
qed

theorem secureRandom_contract_witness:
  "secureRandom 0 (sconst 7) = Some (Inl (Error ''secureRandom: max must be positive''))
   \<and> secureRandom (- 5) (sconst 7) = Some (Inl (Error ''secureRandom: max must be positive''))
   \<and> secureRandom 1 (sconst 7) = Some (Inr (0, sconst 7))
   \<and> secureRandom 3 (sconst 7) = Some (Inr (1, sconst 7))
   \<and> accepted 3 (sconst 7 !! 0)"
proof -
  have a: "accepted 3 7" by (simp add: accepted_def maxValid_def)
  then have r: "secureRandom 3 (sconst 7) = Some (Inr (1, sconst 7))"
    using secureRandom_sconst [of 3 7] by simp
  have "(0::int) \<le> 0" "(- 5 :: int) \<le> 0" by simp_all
  with secureRandom_contract [of 0 "sconst 7"] secureRandom_contract [of "- 5" "sconst 7"]
  show ?thesis using a r by simp
qed

text \<open>
  Claim C10. For every integer \<open>max > 2^32\<close> the threshold \<open>maxValid\<close> is 0, every 32-bit
  draw satisfies \<open>draw \<ge> maxValid\<close>, and the call returns on no sequence of draws. For
  \<open>1 < max \<le> 2^32\<close> the threshold is positive, the draw 0 is accepted, and the call returns
  exactly on the sequences that hold an accepted draw.
\<close>

theorem secureRandom_diverges_above_2_32:
  "(2 ^ 32 < mx \<longrightarrow>
      maxValid mx = 0 \<and> (\<forall>v :: 32 word. uint v \<ge> maxValid mx) \<and> (\<forall>s. secureRandom mx s = None))
   \<and> (1 < mx \<longrightarrow> mx \<le> 2 ^ 32 \<longrightarrow>
      0 < maxValid mx \<and> accepted mx 0
      \<and> (\<forall>s. secureRandom mx s \<noteq> None \<longleftrightarrow> (\<exists>k. accepted mx (s !! k))))"
proof (intro conjI impI allI)
  assume "2 ^ 32 < mx"
  then show "maxValid mx = 0" by (rule maxValid_above)
next
  fix v :: "32 word"
  assume "2 ^ 32 < mx"
  then have "maxValid mx = 0" by (rule maxValid_above)
  then show "uint v \<ge> maxValid mx" by simp
next
  fix s assume big: "2 ^ 32 < mx"
  then have "maxValid mx = 0" by (rule maxValid_above)
  then have "\<forall>k. \<not> accepted mx (s !! k)" by (simp add: accepted_def)
  moreover have "1 < mx" using big by simp
  ultimately show "secureRandom mx s = None" by (simp add: secureRandom_None_iff)
next
  assume "1 < mx" "mx \<le> 2 ^ 32"
  then show "0 < maxValid mx" by (intro maxValid_pos) simp_all
next
  assume "1 < mx" "mx \<le> 2 ^ 32"
  then have "0 < maxValid mx" by (intro maxValid_pos) simp_all
  then show "accepted mx 0" by (simp add: accepted_def)
next
  fix s assume "1 < mx" "mx \<le> 2 ^ 32"
  then show "secureRandom mx s \<noteq> None \<longleftrightarrow> (\<exists>k. accepted mx (s !! k))"
    by (simp add: secureRandom_None_iff)
qed

theorem secureRandom_diverges_above_2_32_witness:
  "maxValid 4294967297 = 0 \<and> secureRandom 4294967297 (sconst 0) = None
   \<and> maxValid 4294967296 = 4294967296 \<and> secureRandom 4294967296 (sconst 0) \<noteq> None
   \<and> secureRandom 3 (sconst 4294967295) = None"
proof -
  have h: "(2 ^ 32 :: int) < 4294967297" "(1::int) < 4294967296" "(4294967296 :: int) \<le> 2 ^ 32"
    "(1::int) < 3" "(3::int) \<le> 2 ^ 32"
    by simp_all
  have a: "accepted 4294967296 (sconst 0 !! 0)" "\<forall>k. \<not> accepted 3 (sconst 4294967295 !! k)"
    by (simp_all add: accepted_def maxValid_def snth_sconst)
  from secureRandom_diverges_above_2_32 [of 4294967297] h(1)
  have "maxValid 4294967297 = 0 \<and> secureRandom 4294967297 (sconst 0) = None" by blast
  moreover from secureRandom_diverges_above_2_32 [of 4294967296] h(2,3) a(1)
  have "secureRandom 4294967296 (sconst 0) \<noteq> None" by blast
  moreover from secureRandom_diverges_above_2_32 [of 3] h(4,5) a(2)
  have "secureRandom 3 (sconst 4294967295) = None" by blast
  ultimately show ?thesis by (simp add: maxValid_def)
qed

section \<open>Properties of the scorer\<close>

lemma calculateStrength_range: "0 \<le> calculateStrength p \<and> calculateStrength p \<le> 100"
  by (simp add: calculateStrength_def Let_def)

lemma codePoints_no_lead:
  "\<forall>c \<in> set p. \<not> isLeadSurrogate c \<Longrightarrow> codePoints p = map (\<lambda>c. [c]) p"
  by (induction p rule: codePoints.induct) simp_all

lemma variety_count:
  "int (length (filter id [a, b, c, d])) = of_bool a + of_bool b + of_bool c + of_bool d"
  by (cases a; cases b; cases c; cases d) simp_all

lemma calculateStrength_eq_spec:
  assumes "\<forall>c \<in> set p. \<not> isLeadSurrogate c"
  shows "calculateStrength p = calculateStrength_spec p"
proof -
  have "inj_on (\<lambda>c :: 16 word. [c]) (set p)" by (simp add: inj_on_def)
  then have "card ((\<lambda>c. [c]) ` set p) = card (set p)" by (rule card_image)
  then have "length (remdups (map (\<lambda>c. [c]) p)) = card (set p)"
    by (simp add: length_remdups_card_conv)
  then have "int (length (remdups (codePoints p))) = int (card (set p))"
    using assms by (simp add: codePoints_no_lead)
  then show ?thesis
    unfolding calculateStrength_def calculateStrength_spec_def Let_def variety_count
    by (simp add: algebra_simps min.commute)
qed

text \<open>
  Claim C7. \<open>calculateStrength(p)\<close> is to equal the reference: base, variety bonus and the
  penalty \<open>2 * (length(p) - number of distinct characters of p)\<close>. The source takes the
  length in code units and the distinct count in code points, so a string with a surrogate
  pair is charged for a repetition it does not have. On the single character U+1F600, code
  units \<open>D83D DE00\<close>, the source returns 21 where the reference gives 23. The two agree on
  every string without a lead surrogate (\<open>calculateStrength_eq_spec\<close>), and the result is
  always within \<open>[0, 100]\<close> (\<open>calculateStrength_range\<close>).
\<close>

theorem calculateStrength_surrogate_pair:
  "calculateStrength [0xD83D, 0xDE00] = 21 \<and> calculateStrength_spec [0xD83D, 0xDE00] = 23"
  by (simp add: calculateStrength_def calculateStrength_spec_def isLower_def isUpper_def
      isDigit_def isSymbol_def isLeadSurrogate_def isTrailSurrogate_def Let_def)

text \<open>
  Claim C8. \<open>getStrengthDescription\<close> maps a score below 40 to the weak label, from 40 up
  to but not 70 to the medium label, from 70 up to but not 90 to the strong label, and
  from 90 on to the very strong label; each band includes its lower bound. The four labels
  are different strings, and the scores 0, 39, 40, 69, 70, 89, 90, 100 get the labels weak,
  weak, medium, medium, strong, strong, very strong, very strong.
\<close>

theorem getStrengthDescription_bands:
  "(score < 40 \<longrightarrow> getStrengthDescription score = label_weak)
   \<and> (40 \<le> score \<and> score < 70 \<longrightarrow> getStrengthDescription score = label_medium)
   \<and> (70 \<le> score \<and> score < 90 \<longrightarrow> getStrengthDescription score = label_strong)
   \<and> (90 \<le> score \<longrightarrow> getStrengthDescription score = label_very_strong)
   \<and> distinct [label_weak, label_medium, label_strong, label_very_strong]
   \<and> map getStrengthDescription [0, 39, 40, 69, 70, 89, 90, 100] =
       [label_weak, label_weak, label_medium, label_medium,
        label_strong, label_strong, label_very_strong, label_very_strong]"
  by (simp add: getStrengthDescription_def label_weak_def label_medium_def label_strong_def
      label_very_strong_def)

theorem getStrengthDescription_bands_witness:
  "getStrengthDescription 39 = label_weak \<and> getStrengthDescription 40 = label_medium
   \<and> getStrengthDescription 69 = label_medium \<and> getStrengthDescription 70 = label_strong
   \<and> getStrengthDescription 89 = label_strong \<and> getStrengthDescription 90 = label_very_strong"
  using getStrengthDescription_bands [of 39] getStrengthDescription_bands [of 40]
    getStrengthDescription_bands [of 69] getStrengthDescription_bands [of 70]
    getStrengthDescription_bands [of 89] getStrengthDescription_bands [of 90]
  by simp

section \<open>Properties of parseInt\<close>

lemma isDigit_plain:
  assumes "isDigit c"
  shows "\<not> isWhiteSpace c" "c \<noteq> 0x2D" "c \<noteq> 0x2B"
proof -
  from assms have r: "48 \<le> unat c" "unat c \<le> 57"
    by (simp_all add: isDigit_def word_le_nat_alt)
  have "\<not> (0x2000 \<le> c \<and> c \<le> 0x200A)" using r by (simp add: word_le_nat_alt)
  moreover have "c \<notin> set [0x0009, 0x000A, 0x000B, 0x000C, 0x000D, 0x0020, 0x00A0, 0x1680,
                0x2028, 0x2029, 0x202F, 0x205F, 0x3000, 0xFEFF]"
    using r by auto
  ultimately show "\<not> isWhiteSpace c" by (simp add: isWhiteSpace_def)
  show "c \<noteq> 0x2D" "c \<noteq> 0x2B" using r by auto
qed

lemma digit_char:
  assumes "k < 10"
  shows "isDigit (0x30 + of_nat k)" "digitValue (0x30 + of_nat k) = k"
proof -
  have u: "unat (0x30 + of_nat k :: 16 word) = 48 + k"
    using assms by (simp add: unat_word_ariths unat_of_nat)
  show "isDigit (0x30 + of_nat k)" using assms u by (simp add: isDigit_def word_le_nat_alt)
  show "digitValue (0x30 + of_nat k) = k" using u by (simp add: digitValue_def)
qed

lemma digits10_digits: "digits10 n \<noteq> [] \<and> list_all isDigit (digits10 n)"
proof (induction n rule: digits10.induct)
  case (1 n)
  show ?case
  proof (cases "n < 10")
    case True
    then show ?thesis by (subst (1 2) digits10.simps) (simp add: digit_char)
  next
    case False
    have "n mod 10 < 10" by simp
    then have "isDigit (0x30 + of_nat (n mod 10))" by (rule digit_char)
    with False 1 show ?thesis by (subst (1 2) digits10.simps) simp
  qed
qed

lemma digits10_value: "foldl (\<lambda>a c. 10 * a + digitValue c) 0 (digits10 n) = n"
proof (induction n rule: digits10.induct)
  case (1 n)
  show ?case
  proof (cases "n < 10")
    case True
    then show ?thesis by (subst digits10.simps) (simp add: digit_char)
  next
    case False
    have "n mod 10 < 10" by simp
    then have "digitValue (0x30 + of_nat (n mod 10)) = n mod 10" by (rule digit_char)
    with False 1 show ?thesis by (subst digits10.simps) simp
  qed
qed

lemma parse_digits10:
  "dropWhile isWhiteSpace (digits10 n) = digits10 n"
  "hd (digits10 n) \<noteq> 0x2D" "hd (digits10 n) \<noteq> 0x2B"
  "takeWhile isDigit (digits10 n) = digits10 n"
proof -
  from digits10_digits [of n] obtain c cs where d: "digits10 n = c # cs" "isDigit c"
    by (cases "digits10 n") auto
  from isDigit_plain [OF d(2)] d(1)
  show "dropWhile isWhiteSpace (digits10 n) = digits10 n"
    "hd (digits10 n) \<noteq> 0x2D" "hd (digits10 n) \<noteq> 0x2B"
    by simp_all
  from digits10_digits [of n] show "takeWhile isDigit (digits10 n) = digits10 n"
    by (simp add: list_all_iff)
qed

lemma parseInt10_JSNumber: "parseInt10 (JSNumber n) = Some n"
proof (cases "n < 0")
  case True
  have "\<not> isWhiteSpace 0x2D" by (simp add: isWhiteSpace_def)
  with True show ?thesis
    using digits10_digits [of "nat (- n)"]
    by (simp add: parseInt10_def ToString_def Let_def parse_digits10 digits10_value)
next
  case False
  then show ?thesis
    using digits10_digits [of "nat n"]
    by (simp add: parseInt10_def ToString_def Let_def parse_digits10 digits10_value)
qed

lemma parseInt10_JSUndefined: "parseInt10 JSUndefined = None"
  by (simp add: parseInt10_def ToString_def js_def isWhiteSpace_def isDigit_def Let_def)

section \<open>Properties of the synthesizer\<close>

lemma replenishing_sdrop: "replenishing mx s \<Longrightarrow> replenishing mx (sdrop n s)"
  by (simp add: replenishing_def)

lemma replenishing_ex: "replenishing mx s \<Longrightarrow> \<exists>k. accepted mx (s !! k)"
  unfolding replenishing_def by (drule spec [of _ 0]) simp

lemma replenishing_sconst: "accepted mx v \<Longrightarrow> replenishing mx (sconst v)"
  by (simp add: replenishing_def snth_sconst)

lemma secureRandom_result:
  assumes "0 < mx" "secureRandom mx s = Some (Inr (i, s'))"
  shows "0 \<le> i \<and> i < mx"
proof (cases "mx = 1")
  case True
  with assms(2) show ?thesis by (simp add: secureRandom_def)
next
  case False
  with assms(1) have "1 < mx" by simp
  then show ?thesis using assms(2) by (rule secureRandom_range)
qed

lemma secureRandom_replenishing:
  assumes "0 < mx" "replenishing mx s"
  shows "\<exists>i s'. secureRandom mx s = Some (Inr (i, s')) \<and> replenishing mx s'"
proof (cases "mx = 1")
  case True
  with assms(2) show ?thesis by (simp add: secureRandom_def)
next
  case False
  with assms(1) have mx: "1 < mx" by simp
  from replenishing_ex [OF assms(2)] obtain k where "accepted mx (s !! k)" by blast
  from secureRandom_accepted_returns [OF mx this] obtain i where
    "secureRandom mx s = Some (Inr (uint (s !! i) mod mx, sdrop (Suc i) s))" by blast
  moreover have "replenishing mx (sdrop (Suc i) s)" using assms(2) by (rule replenishing_sdrop)
  ultimately show ?thesis by blast
qed

lemma char_at_pool: "0 \<le> i \<Longrightarrow> i < int (length pool) \<Longrightarrow> \<exists>c \<in> set pool. char_at pool i = [c]"
  by (simp add: char_at_def)

lemma password_loop_Inr:
  "pool \<noteq> [] \<Longrightarrow> password_loop n pool acc s = Some (Inr (pw, s')) \<Longrightarrow>
   \<exists>cs. pw = acc @ cs \<and> length cs = n \<and> set cs \<subseteq> set pool"
proof (induction n arbitrary: acc s)
  case 0
  then show ?case by simp
next
  case (Suc n)
  from Suc.prems(2) obtain i s1 where
    r: "secureRandom (int (length pool)) s = Some (Inr (i, s1))"
    and l: "password_loop n pool (acc @ char_at pool i) s1 = Some (Inr (pw, s'))"
    by (auto split: option.splits sum.splits prod.splits)
  have "0 < int (length pool)" using Suc.prems(1) by simp
  from secureRandom_result [OF this r] have "0 \<le> i" "i < int (length pool)" by simp_all
  from char_at_pool [OF this] obtain c where c: "c \<in> set pool" "char_at pool i = [c]" by blast
  from Suc.IH [OF Suc.prems(1) l] obtain cs where
    cs: "pw = (acc @ char_at pool i) @ cs" "length cs = n" "set cs \<subseteq> set pool" by blast
  have "pw = acc @ (c # cs) \<and> length (c # cs) = Suc n \<and> set (c # cs) \<subseteq> set pool"
    using c cs by simp
  then show ?case by blast
qed

lemma password_loop_no_throw:
  "pool \<noteq> [] \<Longrightarrow> password_loop n pool acc s \<noteq> Some (Inl e)"
proof (induction n arbitrary: acc s)
  case 0
  then show ?case by simp
next
  case (Suc n)
  have "0 < int (length pool)" using Suc.prems by simp
  then have "secureRandom (int (length pool)) s \<noteq> Some (Inl e)" by (rule secureRandom_no_throw)
  with Suc.IH [OF Suc.prems] show ?case
    by (auto split: option.splits sum.splits prod.splits)
qed

lemma password_loop_returns:
  "pool \<noteq> [] \<Longrightarrow> replenishing (int (length pool)) s \<Longrightarrow>
   \<exists>pw s'. password_loop n pool acc s = Some (Inr (pw, s'))"
proof (induction n arbitrary: acc s)
  case 0
  then show ?case by simp
next
  case (Suc n)
  have "0 < int (length pool)" using Suc.prems(1) by simp
  from secureRandom_replenishing [OF this Suc.prems(2)] obtain i s1 where
    r: "secureRandom (int (length pool)) s = Some (Inr (i, s1))"
    and "replenishing (int (length pool)) s1" by blast
  from Suc.IH [OF Suc.prems(1) this(2), of "acc @ char_at pool i"] r
  show ?case by simp
qed

lemma word_at_list: "0 \<le> i \<Longrightarrow> i < int (length ws) \<Longrightarrow> \<exists>w \<in> set ws. word_at ws i = Some w"
  by (simp add: word_at_def)

lemma words_loop_Inr:
  "ws \<noteq> [] \<Longrightarrow> words_loop n ws acc s = Some (Inr (out, s')) \<Longrightarrow>
   \<exists>picks. out = acc @ map Some picks \<and> length picks = n \<and> set picks \<subseteq> set ws"
proof (induction n arbitrary: acc s)
  case 0
  then show ?case by simp
next
  case (Suc n)
  from Suc.prems(2) obtain i s1 where
    r: "secureRandom (int (length ws)) s = Some (Inr (i, s1))"
    and l: "words_loop n ws (acc @ [word_at ws i]) s1 = Some (Inr (out, s'))"
    by (auto split: option.splits sum.splits prod.splits)
  have "0 < int (length ws)" using Suc.prems(1) by simp
  from secureRandom_result [OF this r] have "0 \<le> i" "i < int (length ws)" by simp_all
  from word_at_list [OF this] obtain w where w: "w \<in> set ws" "word_at ws i = Some w" by blast
  from Suc.IH [OF Suc.prems(1) l] obtain picks where
    p: "out = (acc @ [word_at ws i]) @ map Some picks" "length picks = n" "set picks \<subseteq> set ws"
    by blast
  have "out = acc @ map Some (w # picks) \<and> length (w # picks) = Suc n \<and> set (w # picks) \<subseteq> set ws"
    using w p by simp
  then show ?case by blast
qed

lemma words_loop_no_throw:
  "ws \<noteq> [] \<Longrightarrow> words_loop n ws acc s \<noteq> Some (Inl e)"
proof (induction n arbitrary: acc s)
  case 0
  then show ?case by simp
next
  case (Suc n)
  have "0 < int (length ws)" using Suc.prems by simp
  then have "secureRandom (int (length ws)) s \<noteq> Some (Inl e)" by (rule secureRandom_no_throw)
  with Suc.IH [OF Suc.prems] show ?case
    by (auto split: option.splits sum.splits prod.splits)
qed

lemma words_loop_returns:
  "ws \<noteq> [] \<Longrightarrow> replenishing (int (length ws)) s \<Longrightarrow>
   \<exists>out s'. words_loop n ws acc s = Some (Inr (out, s'))"
proof (induction n arbitrary: acc s)
  case 0
  then show ?case by simp
next
  case (Suc n)
  have "0 < int (length ws)" using Suc.prems(1) by simp
  from secureRandom_replenishing [OF this Suc.prems(2)] obtain i s1 where
    r: "secureRandom (int (length ws)) s = Some (Inr (i, s1))"
    and "replenishing (int (length ws)) s1" by blast
  from Suc.IH [OF Suc.prems(1) this(2), of "acc @ [word_at ws i]"] r
  show ?case by simp
qed

lemma password_loop_shift:
  "1 < int (length pool) \<Longrightarrow> list_all (accepted (int (length pool))) vs \<Longrightarrow>
   password_loop (length vs) pool acc (vs @- s) =
     Some (Inr (acc @ map (\<lambda>v. pool ! nat (uint v mod int (length pool))) vs, s))"
proof (induction vs arbitrary: acc)
  case Nil
  then show ?case by simp
next
  case (Cons v vs)
  from Cons.prems have a: "accepted (int (length pool)) v" by simp
  have r: "secureRandom (int (length pool)) (v ## (vs @- s)) =
      Some (Inr (uint v mod int (length pool), vs @- s))"
    using Cons.prems(1) a by (rule secureRandom_SCons_accepted)
  have pos: "0 < int (length pool)" using Cons.prems(1) by linarith
  have "0 \<le> uint v mod int (length pool)" using pos by (rule pos_mod_sign)
  moreover have "uint v mod int (length pool) < int (length pool)" using pos by (rule pos_mod_bound)
  ultimately have c: "char_at pool (uint v mod int (length pool)) = [pool ! nat (uint v mod int (length pool))]"
    by (simp add: char_at_def)
  from Cons.prems have "list_all (accepted (int (length pool))) vs" by simp
  from Cons.IH [OF Cons.prems(1) this] r c show ?case by simp
qed

lemma words_loop_shift:
  "1 < int (length ws) \<Longrightarrow> list_all (accepted (int (length ws))) vs \<Longrightarrow>
   words_loop (length vs) ws acc (vs @- s) =
     Some (Inr (acc @ map (\<lambda>v. Some (ws ! nat (uint v mod int (length ws)))) vs, s))"
proof (induction vs arbitrary: acc)
  case Nil
  then show ?case by simp
next
  case (Cons v vs)
  from Cons.prems have a: "accepted (int (length ws)) v" by simp
  have r: "secureRandom (int (length ws)) (v ## (vs @- s)) =
      Some (Inr (uint v mod int (length ws), vs @- s))"
    using Cons.prems(1) a by (rule secureRandom_SCons_accepted)
  have pos: "0 < int (length ws)" using Cons.prems(1) by linarith
  have "0 \<le> uint v mod int (length ws)" using pos by (rule pos_mod_sign)
  moreover have "uint v mod int (length ws) < int (length ws)" using pos by (rule pos_mod_bound)
  ultimately have c: "word_at ws (uint v mod int (length ws)) = Some (ws ! nat (uint v mod int (length ws)))"
    by (simp add: word_at_def)
  from Cons.prems have "list_all (accepted (int (length ws))) vs" by simp
  from Cons.IH [OF Cons.prems(1) this] r c show ?case by simp
qed

lemma SETS_nonempty:
  "SETS_lower \<noteq> []" "SETS_upper \<noteq> []" "SETS_numbers \<noteq> []" "SETS_symbols \<noteq> []"
  by (simp_all add: SETS_lower_def SETS_upper_def SETS_numbers_def SETS_symbols_def js_def)

lemma build_pool_empty_iff:
  "build_pool opts = [] \<longleftrightarrow> \<not> lower opts \<and> \<not> upper opts \<and> \<not> numbers opts \<and> \<not> symbols opts"
  by (simp add: build_pool_def SETS_nonempty)

lemma set_build_pool:
  "set (build_pool opts) =
     (if lower opts then set SETS_lower else {}) \<union> (if upper opts then set SETS_upper else {}) \<union>
     (if numbers opts then set SETS_numbers else {}) \<union> (if symbols opts then set SETS_symbols else {})"
  by (simp add: build_pool_def Un_assoc)

lemma password_len_bounds: "6 \<le> password_len x \<and> password_len x \<le> 64"
  by (simp add: password_len_def)

lemma phrase_count_bounds: "3 \<le> phrase_count x \<and> phrase_count x \<le> 12"
  by (simp add: phrase_count_def)

lemma generatePassword_Inr:
  assumes "generatePassword len_arg opts s = Some (Inr (pw, s'))"
  shows "int (length pw) = password_len len_arg \<and> set pw \<subseteq> set (build_pool opts)"
proof -
  from assms have ne: "build_pool opts \<noteq> []"
    by (auto simp: generatePassword_def Let_def split: if_splits)
  with assms have "password_loop (nat (password_len len_arg)) (build_pool opts) [] s = Some (Inr (pw, s'))"
    by (simp add: generatePassword_def Let_def)
  from password_loop_Inr [OF ne this] obtain cs where
    "pw = cs" "length cs = nat (password_len len_arg)" "set cs \<subseteq> set (build_pool opts)" by auto
  moreover have "0 \<le> password_len len_arg" using password_len_bounds [of len_arg] by simp
  ultimately show ?thesis by simp
qed

lemma generatePassword_returns:
  assumes "build_pool opts \<noteq> []" "replenishing (int (length (build_pool opts))) s"
  shows "\<exists>pw s'. generatePassword len_arg opts s = Some (Inr (pw, s'))"
  using password_loop_returns [OF assms, of "nat (password_len len_arg)" "[]"] assms(1)
  by (simp add: generatePassword_def Let_def)

lemma generatePassword_throws_iff:
  "(\<exists>e. generatePassword len_arg opts s = Some (Inl e)) \<longleftrightarrow> build_pool opts = []"
proof
  assume "\<exists>e. generatePassword len_arg opts s = Some (Inl e)"
  then obtain e where e: "generatePassword len_arg opts s = Some (Inl e)" by blast
  show "build_pool opts = []"
  proof (rule ccontr)
    assume ne: "build_pool opts \<noteq> []"
    with e have "password_loop (nat (password_len len_arg)) (build_pool opts) [] s = Some (Inl e)"
      by (simp add: generatePassword_def Let_def)
    with password_loop_no_throw [OF ne] show False by blast
  qed
next
  assume "build_pool opts = []"
  then show "\<exists>e. generatePassword len_arg opts s = Some (Inl e)"
    by (simp add: generatePassword_def)
qed

lemma build_pool_length: "build_pool opts \<noteq> [] \<Longrightarrow> 10 \<le> length (build_pool opts)"
  by (simp add: build_pool_def SETS_lower_def SETS_upper_def SETS_numbers_def SETS_symbols_def
      js_def split: if_splits)

lemma generatePassword_sconst:
  assumes "build_pool opts \<noteq> []" "accepted (int (length (build_pool opts))) v"
  shows "generatePassword len_arg opts (sconst v) =
     Some (Inr (replicate (nat (password_len len_arg))
                  (build_pool opts ! nat (uint v mod int (length (build_pool opts)))),
                sconst v))"
proof -
  let ?pool = "build_pool opts" and ?n = "nat (password_len len_arg)"
  have big: "1 < int (length ?pool)" using build_pool_length [OF assms(1)] by simp
  have all: "list_all (accepted (int (length ?pool))) (replicate ?n v)"
    using assms(2) by (simp add: list_all_iff)
  from password_loop_shift [OF big all, of "[]" "sconst v"]
  have "password_loop ?n ?pool [] (sconst v) =
      Some (Inr (replicate ?n (?pool ! nat (uint v mod int (length ?pool))), sconst v))"
    by simp
  with assms(1) show ?thesis by (simp add: generatePassword_def Let_def)
qed

lemma pool_lower_only:
  "build_pool \<lparr>lower = True, upper = False, numbers = False, symbols = False\<rparr> = SETS_lower"
  "length SETS_lower = 26" "accepted 26 0" "SETS_lower ! 0 = 0x61"
  by (simp_all add: build_pool_def SETS_lower_def js_def accepted_def maxValid_def)

lemma password_len_values:
  "password_len (JSNumber 0) = 16" "password_len (JSNumber 1000) = 64"
  "password_len (JSNumber 16) = 16" "password_len (JSNumber 6) = 6"
  "password_len JSUndefined = 16"
  by (simp_all add: password_len_def or_default_def parseInt10_JSNumber parseInt10_JSUndefined)

text \<open>
  Claim C3 says that \<open>generatePassword(0, {lower: true})\<close> has length 6. The source reads the
  length as \<open>parseInt(length, 10) || 16\<close>: the parsed 0 is falsy, so the default 16 is taken
  before the clamp. With every draw equal to 0 the call returns sixteen times the letter a.
\<close>

theorem generatePassword_zero_counterexample:
  "generatePassword (JSNumber 0) \<lparr>lower = True, upper = False, numbers = False, symbols = False\<rparr>
     (sconst 0) = Some (Inr (replicate 16 0x61, sconst 0))
   \<and> length (replicate 16 (0x61 :: 16 word)) \<noteq> 6"
proof -
  let ?lo = "\<lparr>lower = True, upper = False, numbers = False, symbols = False\<rparr>"
  have "build_pool ?lo \<noteq> []" by (simp add: pool_lower_only SETS_nonempty)
  moreover have "accepted (int (length (build_pool ?lo))) 0" by (simp add: pool_lower_only)
  ultimately have "generatePassword (JSNumber 0) ?lo (sconst 0) =
     Some (Inr (replicate (nat (password_len (JSNumber 0)))
                  (build_pool ?lo ! nat (uint (0 :: 32 word) mod int (length (build_pool ?lo)))),
                sconst 0))"
    by (rule generatePassword_sconst)
  then show ?thesis by (simp add: pool_lower_only password_len_values)
qed

text \<open>
  Claim C3, amended. The length of the password is \<open>parseInt(length, 10) || 16\<close> clamped to
  \<open>[6, 64]\<close>: an argument that parses to \<open>NaN\<close> (non-numeric or missing) or to 0 gives
  16, any other parsed integer \<open>n\<close> gives \<open>max 6 (min 64 n)\<close>. So the arguments 0, 1000 and
  16 give the lengths 16, 64 and 16. Every returned string has exactly that length and all
  its characters come from the pool, the union of the enabled character sets. The call
  returns whenever the pool is not empty and the source keeps supplying accepted draws.
\<close>

theorem generatePassword_length:
  "(\<forall>pw s'. generatePassword len_arg opts s = Some (Inr (pw, s')) \<longrightarrow>
        int (length pw) = password_len len_arg \<and> set pw \<subseteq> set (build_pool opts))
   \<and> set (build_pool opts) =
        (if lower opts then set SETS_lower else {}) \<union> (if upper opts then set SETS_upper else {}) \<union>
        (if numbers opts then set SETS_numbers else {}) \<union> (if symbols opts then set SETS_symbols else {})
   \<and> 6 \<le> password_len len_arg \<and> password_len len_arg \<le> 64
   \<and> (parseInt10 len_arg = None \<or> parseInt10 len_arg = Some 0 \<longrightarrow> password_len len_arg = 16)
   \<and> (\<forall>n. parseInt10 len_arg = Some n \<and> n \<noteq> 0 \<longrightarrow> password_len len_arg = max 6 (min 64 n))
   \<and> (\<forall>n. \<bar>n\<bar> < 10 ^ 21 \<longrightarrow> parseInt10 (JSNumber n) = Some n)
   \<and> parseInt10 JSUndefined = None
   \<and> password_len (JSNumber 0) = 16 \<and> password_len (JSNumber 1000) = 64
   \<and> password_len (JSNumber 16) = 16
   \<and> (build_pool opts \<noteq> [] \<and> replenishing (int (length (build_pool opts))) s \<longrightarrow>
        (\<exists>pw s'. generatePassword len_arg opts s = Some (Inr (pw, s'))))"
proof (intro conjI allI impI)
  fix pw s' assume "generatePassword len_arg opts s = Some (Inr (pw, s'))"
  then have "int (length pw) = password_len len_arg \<and> set pw \<subseteq> set (build_pool opts)"
    by (rule generatePassword_Inr)
  then show "int (length pw) = password_len len_arg" "set pw \<subseteq> set (build_pool opts)"
    by simp_all
next
  show "set (build_pool opts) =
        (if lower opts then set SETS_lower else {}) \<union> (if upper opts then set SETS_upper else {}) \<union>
        (if numbers opts then set SETS_numbers else {}) \<union> (if symbols opts then set SETS_symbols else {})"
    by (rule set_build_pool)
next
  show "6 \<le> password_len len_arg" "password_len len_arg \<le> 64"
    using password_len_bounds [of len_arg] by simp_all
next
  assume "parseInt10 len_arg = None \<or> parseInt10 len_arg = Some 0"
  then show "password_len len_arg = 16" by (auto simp: password_len_def or_default_def)
next
  fix n assume "parseInt10 len_arg = Some n \<and> n \<noteq> 0"
  then show "password_len len_arg = max 6 (min 64 n)" by (simp add: password_len_def or_default_def)
next
  fix n show "parseInt10 (JSNumber n) = Some n" by (rule parseInt10_JSNumber)
next
  show "parseInt10 JSUndefined = None" by (rule parseInt10_JSUndefined)
next
  show "password_len (JSNumber 0) = 16" "password_len (JSNumber 1000) = 64"
    "password_len (JSNumber 16) = 16"
    by (rule password_len_values)+
next
  assume "build_pool opts \<noteq> [] \<and> replenishing (int (length (build_pool opts))) s"
  then show "\<exists>pw s'. generatePassword len_arg opts s = Some (Inr (pw, s'))"
    by (intro generatePassword_returns) simp_all
qed

theorem generatePassword_length_witness:
  "generatePassword (JSNumber 1000) \<lparr>lower = True, upper = False, numbers = False, symbols = False\<rparr>
     (sconst 0) = Some (Inr (replicate 64 0x61, sconst 0))
   \<and> int (length (replicate 64 (0x61 :: 16 word))) = password_len (JSNumber 1000)
   \<and> set (replicate 64 (0x61 :: 16 word)) \<subseteq> set SETS_lower
   \<and> parseInt10 (JSNumber 1000) = Some 1000 \<and> password_len (JSNumber 1000) = 64
   \<and> parseInt10 JSUndefined = None \<and> password_len JSUndefined = 16
   \<and> replenishing 26 (sconst 0)"
proof -
  let ?lo = "\<lparr>lower = True, upper = False, numbers = False, symbols = False\<rparr>"
  have ne: "build_pool ?lo \<noteq> []" by (simp add: pool_lower_only SETS_nonempty)
  have acc: "accepted (int (length (build_pool ?lo))) 0" by (simp add: pool_lower_only)
  have rep: "replenishing (int (length (build_pool ?lo))) (sconst 0)"
    using acc by (rule replenishing_sconst)
  have "generatePassword (JSNumber 1000) ?lo (sconst 0) =
     Some (Inr (replicate (nat (password_len (JSNumber 1000)))
                  (build_pool ?lo ! nat (uint (0 :: 32 word) mod int (length (build_pool ?lo)))),
                sconst 0))"
    using ne acc by (rule generatePassword_sconst)
  then have ev: "generatePassword (JSNumber 1000) ?lo (sconst 0) =
      Some (Inr (replicate 64 0x61, sconst 0))"
    by (simp add: pool_lower_only password_len_values)
  note t = generatePassword_length [of "JSNumber 1000" ?lo "sconst 0"]
  note u = generatePassword_length [of JSUndefined ?lo "sconst 0"]
  from t ev have "int (length (replicate 64 (0x61 :: 16 word))) = password_len (JSNumber 1000)
      \<and> set (replicate 64 (0x61 :: 16 word)) \<subseteq> set (build_pool ?lo)"
    by blast
  moreover have "\<bar>1000 :: int\<bar> < 10 ^ 21" by simp
  with t have "parseInt10 (JSNumber 1000) = Some 1000" by blast
  moreover from t have "password_len (JSNumber 1000) = 64" by blast
  moreover from u have "parseInt10 JSUndefined = None" by blast
  moreover from u this have "password_len JSUndefined = 16" by blast
  moreover from t ne rep
  have "\<exists>pw s'. generatePassword (JSNumber 1000) ?lo (sconst 0) = Some (Inr (pw, s'))" by blast
  ultimately show ?thesis using ev rep by (simp add: pool_lower_only)
qed

text \<open>
  Claim C4. \<open>generatePassword\<close> throws if and only if the pool is empty, that is, if and
  only if all four flags are false; the exception is the source's
  \<open>Error('At least one character set must be selected')\<close>, the spec's InvalidArgument,
  whatever the length argument is, and no string is returned then.
\<close>

theorem generatePassword_empty_pool:
  "((\<exists>e. generatePassword len_arg opts s = Some (Inl e)) \<longleftrightarrow> build_pool opts = [])
   \<and> (build_pool opts = [] \<longleftrightarrow>
        \<not> lower opts \<and> \<not> upper opts \<and> \<not> numbers opts \<and> \<not> symbols opts)
   \<and> (build_pool opts = [] \<longrightarrow>
        generatePassword len_arg opts s =
          Some (Inl (Error ''At least one character set must be selected''))
        \<and> (\<forall>pw s'. generatePassword len_arg opts s \<noteq> Some (Inr (pw, s'))))"
proof (intro conjI impI allI)
  show "(\<exists>e. generatePassword len_arg opts s = Some (Inl e)) \<longleftrightarrow> build_pool opts = []"
    by (rule generatePassword_throws_iff)
next
  show "build_pool opts = [] \<longleftrightarrow>
        \<not> lower opts \<and> \<not> upper opts \<and> \<not> numbers opts \<and> \<not> symbols opts"
    by (rule build_pool_empty_iff)
next
  assume "build_pool opts = []"
  then show "generatePassword len_arg opts s =
      Some (Inl (Error ''At least one character set must be selected''))"
    by (simp add: generatePassword_def)
next
  fix pw s' assume "build_pool opts = []"
  then show "generatePassword len_arg opts s \<noteq> Some (Inr (pw, s'))"
    by (simp add: generatePassword_def)
qed

theorem generatePassword_empty_pool_witness:
  "build_pool \<lparr>lower = False, upper = False, numbers = False, symbols = False\<rparr> = []
   \<and> generatePassword (JSNumber 16)
         \<lparr>lower = False, upper = False, numbers = False, symbols = False\<rparr> (sconst 0) =
       Some (Inl (Error ''At least one character set must be selected''))
   \<and> generatePassword (JSNumber 1000)
         \<lparr>lower = False, upper = False, numbers = False, symbols = False\<rparr> (sconst 0) =
       Some (Inl (Error ''At least one character set must be selected''))"
proof -
  let ?none = "\<lparr>lower = False, upper = False, numbers = False, symbols = False\<rparr>"
  have e: "build_pool ?none = []" by (simp add: build_pool_def)
  from generatePassword_empty_pool [of "JSNumber 16" ?none "sconst 0"] e
  have "generatePassword (JSNumber 16) ?none (sconst 0) =
      Some (Inl (Error ''At least one character set must be selected''))" by blast
  moreover from generatePassword_empty_pool [of "JSNumber 1000" ?none "sconst 0"] e
  have "generatePassword (JSNumber 1000) ?none (sconst 0) =
      Some (Inl (Error ''At least one character set must be selected''))" by blast
  ultimately show ?thesis using e by simp
qed

lemma phrase_sep_length: "length (phrase_sep separator) \<le> 10"
  by (simp add: phrase_sep_def)

lemma phrase_values: "phrase_count (JSNumber 6) = 6" "phrase_sep (js ''-'') = [0x2D]"
  by (simp_all add: phrase_count_def or_default_def parseInt10_JSNumber phrase_sep_def js_def)

lemma generatePassphrase_Inr:
  assumes "ws \<noteq> []"
    "generatePassphrase (Some ws) wordCount separator s = Some (Inr (out, s'))"
  shows "\<exists>picks. length picks = nat (phrase_count wordCount) \<and> set picks \<subseteq> set ws
            \<and> out = join (phrase_sep separator) (map Some picks)"
proof -
  from assms obtain words where
    w: "words_loop (nat (phrase_count wordCount)) ws [] s = Some (Inr (words, s'))"
    and o: "out = join (phrase_sep separator) words"
    by (auto simp: generatePassphrase_def Let_def split: option.splits sum.splits prod.splits)
  from words_loop_Inr [OF assms(1) w] o show ?thesis by auto
qed

lemma generatePassphrase_returns:
  assumes "ws \<noteq> []" "replenishing (int (length ws)) s"
  shows "\<exists>out s'. generatePassphrase (Some ws) wordCount separator s = Some (Inr (out, s'))"
proof -
  from words_loop_returns [OF assms, of "nat (phrase_count wordCount)" "[]"] obtain words s'
    where "words_loop (nat (phrase_count wordCount)) ws [] s = Some (Inr (words, s'))" by blast
  with assms(1) show ?thesis by (simp add: generatePassphrase_def Let_def)
qed

lemma generatePassphrase_shift:
  assumes "1 < int (length ws)" "list_all (accepted (int (length ws))) vs"
    "length vs = nat (phrase_count wordCount)"
  shows "generatePassphrase (Some ws) wordCount separator (vs @- s) =
     Some (Inr (join (phrase_sep separator)
                  (map (\<lambda>v. Some (ws ! nat (uint v mod int (length ws)))) vs), s))"
proof -
  from assms(1) have ne: "ws \<noteq> []" by auto
  from words_loop_shift [OF assms(1,2), of "[]" s] assms(3)
  have "words_loop (nat (phrase_count wordCount)) ws [] (vs @- s) =
      Some (Inr (map (\<lambda>v. Some (ws ! nat (uint v mod int (length ws)))) vs, s))"
    by simp
  with ne show ?thesis by (simp add: generatePassphrase_def Let_def)
qed

lemma generatePassphrase_throws_iff:
  "(\<exists>e. generatePassphrase wl wordCount separator s = Some (Inl e)) \<longleftrightarrow> (wl = None \<or> wl = Some [])"
proof (cases wl)
  case None
  then show ?thesis by (simp add: generatePassphrase_def)
next
  case (Some ws)
  show ?thesis
  proof (cases "ws = []")
    case True
    with Some show ?thesis by (simp add: generatePassphrase_def)
  next
    case False
    from words_loop_no_throw [OF False]
    have "\<And>e. generatePassphrase (Some ws) wordCount separator s \<noteq> Some (Inl e)"
      using False
      by (auto simp: generatePassphrase_def Let_def split: option.splits sum.splits prod.splits)
    with Some False show ?thesis by simp
  qed
qed

text \<open>
  Claim C5 says that the word count is clamped to \<open>[3, 12]\<close>, with the default 6 on invalid
  input only, so that a count of 0 is raised to 3. The source reads the count as
  \<open>parseInt(wordCount, 10) || 6\<close>: the parsed 0 is falsy, so the default 6 is taken before
  the clamp. On a list of three words and six accepted draws, \<open>generatePassphrase(0, "-")\<close>
  returns six words.
\<close>

theorem generatePassphrase_zero_counterexample:
  "generatePassphrase (Some [js ''abandon'', js ''ability'', js ''able'']) (JSNumber 0) (js ''-'')
     ([0, 1, 5, 3, 4, 2] @- sconst 0) =
     Some (Inr (js ''abandon-ability-able-abandon-ability-able'', sconst 0))
   \<and> phrase_count (JSNumber 0) = 6
   \<and> phrase_count (JSNumber 0) \<noteq> max 3 (min 12 0)"
proof -
  let ?W = "[js ''abandon'', js ''ability'', js ''able'']"
  let ?vs = "[0, 1, 5, 3, 4, 2] :: 32 word list"
  have pc: "phrase_count (JSNumber 0) = 6"
    by (simp add: phrase_count_def or_default_def parseInt10_JSNumber)
  have "1 < int (length ?W)" by simp
  moreover have "list_all (accepted (int (length ?W))) ?vs"
    by (simp add: accepted_def maxValid_def)
  moreover have "length ?vs = nat (phrase_count (JSNumber 0))" by (simp add: pc)
  ultimately have "generatePassphrase (Some ?W) (JSNumber 0) (js ''-'') (?vs @- sconst 0) =
      Some (Inr (join (phrase_sep (js ''-''))
                   (map (\<lambda>v. Some (?W ! nat (uint v mod int (length ?W)))) ?vs), sconst 0))"
    by (rule generatePassphrase_shift)
  then have "generatePassphrase (Some ?W) (JSNumber 0) (js ''-'') (?vs @- sconst 0) =
      Some (Inr (js ''abandon-ability-able-abandon-ability-able'', sconst 0))"
    by (simp add: js_def phrase_sep_def)
  with pc show ?thesis by simp
qed

text \<open>
  Claim C5, amended. With a loaded, non-empty word list
  \<open>generatePassphrase(wordCount, separator)\<close> takes the count
  \<open>parseInt(wordCount, 10) || 6\<close> clamped to \<open>[3, 12]\<close>: an argument that parses to \<open>NaN\<close>
  or to 0 gives 6, any other parsed integer \<open>n\<close> gives \<open>max 3 (min 12 n)\<close>. The separator
  is cut to its first 10 code units, and is "-" for the empty separator. Every returned
  string is exactly that many words of the list, repeats allowed, joined by that
  separator; on draws that are all accepted the words are those at the drawn indices, in
  draw order. For the arguments 6 and "-" these are 6 words joined by single hyphens. The
  call returns whenever the source keeps supplying accepted draws.
\<close>

theorem generatePassphrase_composition:
  "ws \<noteq> [] \<longrightarrow>
   (\<forall>out s'. generatePassphrase (Some ws) wordCount separator s = Some (Inr (out, s')) \<longrightarrow>
      (\<exists>picks. length picks = nat (phrase_count wordCount) \<and> set picks \<subseteq> set ws
         \<and> out = join (phrase_sep separator) (map Some picks)))
   \<and> (\<forall>vs s0. 1 < int (length ws) \<and> list_all (accepted (int (length ws))) vs
         \<and> length vs = nat (phrase_count wordCount) \<longrightarrow>
       generatePassphrase (Some ws) wordCount separator (vs @- s0) =
         Some (Inr (join (phrase_sep separator)
                      (map (\<lambda>v. Some (ws ! nat (uint v mod int (length ws)))) vs), s0)))
   \<and> 3 \<le> phrase_count wordCount \<and> phrase_count wordCount \<le> 12
   \<and> (parseInt10 wordCount = None \<or> parseInt10 wordCount = Some 0 \<longrightarrow> phrase_count wordCount = 6)
   \<and> (\<forall>n. parseInt10 wordCount = Some n \<and> n \<noteq> 0 \<longrightarrow> phrase_count wordCount = max 3 (min 12 n))
   \<and> phrase_sep separator = take 10 (if separator = [] then js ''-'' else separator)
   \<and> length (phrase_sep separator) \<le> 10
   \<and> phrase_count (JSNumber 6) = 6 \<and> phrase_sep (js ''-'') = [0x2D]
   \<and> (replenishing (int (length ws)) s \<longrightarrow>
        (\<exists>out s'. generatePassphrase (Some ws) wordCount separator s = Some (Inr (out, s'))))"
proof (intro conjI allI impI)
  fix out s'
  assume "ws \<noteq> []" "generatePassphrase (Some ws) wordCount separator s = Some (Inr (out, s'))"
  then show "\<exists>picks. length picks = nat (phrase_count wordCount) \<and> set picks \<subseteq> set ws
         \<and> out = join (phrase_sep separator) (map Some picks)"
    by (rule generatePassphrase_Inr)
next
  fix vs s0
  assume "1 < int (length ws) \<and> list_all (accepted (int (length ws))) vs
         \<and> length vs = nat (phrase_count wordCount)"
  then show "generatePassphrase (Some ws) wordCount separator (vs @- s0) =
         Some (Inr (join (phrase_sep separator)
                      (map (\<lambda>v. Some (ws ! nat (uint v mod int (length ws)))) vs), s0))"
    by (intro generatePassphrase_shift) simp_all
next
  show "3 \<le> phrase_count wordCount" "phrase_count wordCount \<le> 12"
    using phrase_count_bounds [of wordCount] by simp_all
next
  assume "parseInt10 wordCount = None \<or> parseInt10 wordCount = Some 0"
  then show "phrase_count wordCount = 6" by (auto simp: phrase_count_def or_default_def)
next
  fix n assume "parseInt10 wordCount = Some n \<and> n \<noteq> 0"
  then show "phrase_count wordCount = max 3 (min 12 n)"
    by (simp add: phrase_count_def or_default_def)
next
  show "phrase_sep separator = take 10 (if separator = [] then js ''-'' else separator)"
    by (simp add: phrase_sep_def)
next
  show "length (phrase_sep separator) \<le> 10" by (rule phrase_sep_length)
next
  show "phrase_count (JSNumber 6) = 6" "phrase_sep (js ''-'') = [0x2D]"
    by (rule phrase_values)+
next
  assume "ws \<noteq> []" "replenishing (int (length ws)) s"
  then show "\<exists>out s'. generatePassphrase (Some ws) wordCount separator s = Some (Inr (out, s'))"
    by (rule generatePassphrase_returns)
qed

theorem generatePassphrase_composition_witness:
  "generatePassphrase (Some [js ''abandon'', js ''ability'', js ''able'']) (JSNumber 6) (js ''-'')
     ([0, 1, 5, 3, 4, 2] @- sconst 0) =
     Some (Inr (js ''abandon-ability-able-abandon-ability-able'', sconst 0))
   \<and> phrase_count (JSNumber 6) = 6 \<and> phrase_sep (js ''-'') = [0x2D]
   \<and> parseInt10 JSUndefined = None \<and> phrase_count JSUndefined = 6
   \<and> replenishing 3 (sconst 0)
   \<and> generatePassphrase (Some [js ''abandon'', js ''ability'', js ''able'']) (JSNumber 6) (js ''-'')
        (sconst 0) \<noteq> None"
proof -
  let ?W = "[js ''abandon'', js ''ability'', js ''able'']"
  let ?vs = "[0, 1, 5, 3, 4, 2] :: 32 word list"
  note t = generatePassphrase_composition [of ?W "JSNumber 6" "js ''-''" "sconst 0"]
  note u = generatePassphrase_composition [of ?W JSUndefined "js ''-''" "sconst 0"]
  have ne: "?W \<noteq> []" by simp
  have pc: "phrase_count (JSNumber 6) = 6" "phrase_sep (js ''-'') = [0x2D]"
    using t ne by blast+
  have h: "1 < int (length ?W) \<and> list_all (accepted (int (length ?W))) ?vs
      \<and> length ?vs = nat (phrase_count (JSNumber 6))"
    by (simp add: pc accepted_def maxValid_def)
  from t ne h have "generatePassphrase (Some ?W) (JSNumber 6) (js ''-'') (?vs @- sconst 0) =
      Some (Inr (join (phrase_sep (js ''-''))
                   (map (\<lambda>v. Some (?W ! nat (uint v mod int (length ?W)))) ?vs), sconst 0))"
    by blast
  then have ev: "generatePassphrase (Some ?W) (JSNumber 6) (js ''-'') (?vs @- sconst 0) =
      Some (Inr (js ''abandon-ability-able-abandon-ability-able'', sconst 0))"
    by (simp add: js_def phrase_sep_def)
  have "parseInt10 JSUndefined = None" by (rule parseInt10_JSUndefined)
  with u ne have pu: "phrase_count JSUndefined = 6" by blast
  have "accepted 3 0" by (simp add: accepted_def maxValid_def)
  then have rep: "replenishing 3 (sconst 0)" by (rule replenishing_sconst)
  then have "replenishing (int (length ?W)) (sconst 0)" by simp
  with t ne have "\<exists>out s'. generatePassphrase (Some ?W) (JSNumber 6) (js ''-'') (sconst 0) =
      Some (Inr (out, s'))" by blast
  then have "generatePassphrase (Some ?W) (JSNumber 6) (js ''-'') (sconst 0) \<noteq> None" by auto
  with ev pc pu rep show ?thesis by (simp add: parseInt10_JSUndefined)
qed

text \<open>
  Claim C6. \<open>generatePassphrase\<close> throws if and only if the word list is not loaded or is
  empty; the exception is the source's \<open>Error('BIP39 word list not loaded')\<close>, the spec's
  UnavailableResource, for every word count, separator and entropy source, and no string
  is returned then.
\<close>

theorem generatePassphrase_unavailable:
  "((\<exists>e. generatePassphrase wl wordCount separator s = Some (Inl e)) \<longleftrightarrow>
      (wl = None \<or> wl = Some []))
   \<and> (wl = None \<or> wl = Some [] \<longrightarrow>
        generatePassphrase wl wordCount separator s = Some (Inl (Error ''BIP39 word list not loaded''))
        \<and> (\<forall>out s'. generatePassphrase wl wordCount separator s \<noteq> Some (Inr (out, s'))))"
proof (intro conjI impI allI)
  show "(\<exists>e. generatePassphrase wl wordCount separator s = Some (Inl e)) \<longleftrightarrow>
      (wl = None \<or> wl = Some [])"
    by (rule generatePassphrase_throws_iff)
next
  assume "wl = None \<or> wl = Some []"
  then show "generatePassphrase wl wordCount separator s =
      Some (Inl (Error ''BIP39 word list not loaded''))"
    by (auto simp: generatePassphrase_def)
next
  fix out s' assume "wl = None \<or> wl = Some []"
  then show "generatePassphrase wl wordCount separator s \<noteq> Some (Inr (out, s'))"
    by (auto simp: generatePassphrase_def)
qed

theorem generatePassphrase_unavailable_witness:
  "generatePassphrase None (JSNumber 6) (js ''-'') (sconst 0) =
     Some (Inl (Error ''BIP39 word list not loaded''))
   \<and> generatePassphrase (Some []) (JSNumber 6) (js ''-'') (sconst 0) =
     Some (Inl (Error ''BIP39 word list not loaded''))"
  using generatePassphrase_unavailable [of None "JSNumber 6" "js ''-''" "sconst 0"]
    generatePassphrase_unavailable [of "Some []" "JSNumber 6" "js ''-''" "sconst 0"]
  by simp

section \<open>Properties of the entropy estimate\<close>

lemma calculateEntropy_loaded:
  "calculateEntropy None wordCount = Finite 0"
  "ws \<noteq> [] \<Longrightarrow>
     calculateEntropy (Some ws) wordCount = Finite (log 2 (real (length ws)) * real_of_int wordCount)"
  "length ws = 2048 \<Longrightarrow> calculateEntropy (Some ws) 6 = Finite 66"
proof -
  show "calculateEntropy None wordCount = Finite 0" by (simp add: calculateEntropy_def)
  show "ws \<noteq> [] \<Longrightarrow>
     calculateEntropy (Some ws) wordCount = Finite (log 2 (real (length ws)) * real_of_int wordCount)"
    by (simp add: calculateEntropy_def Math_log2_def times_int_def)
  have "log 2 (2048 :: real) = log 2 (2 ^ 11)" by simp
  also have "\<dots> = 11" by (simp only: log_pow_cancel)
  finally have "log 2 (2048 :: real) = 11" .
  then show "length ws = 2048 \<Longrightarrow> calculateEntropy (Some ws) 6 = Finite 66"
    by (simp add: calculateEntropy_def Math_log2_def times_int_def)
qed


end
